theory Spec2Isabelle
  imports Complex_Main "HOL-Library.Sublist"
begin

section \<open>Strings as the program reads them\<close>

text \<open>
  The program works on Python \<open>str\<close> values. They are modelled as \<open>string\<close>, one
  \<open>char\<close> per code point, read as ASCII. The three character classes below are the ones
  Python uses on ASCII text: \<open>str.strip()\<close>, \<open>str.split()\<close> and the regular
  expression class \<open>\s\<close> share one notion of whitespace (codes 9 to 13 and 28 to 32),
  and the class \<open>\w\<close> is the letters, the digits and the underscore.
\<close>

definition is_space :: "char \<Rightarrow> bool" where
  "is_space c = (let n = (of_char c :: nat) in (9 \<le> n \<and> n \<le> 13) \<or> (28 \<le> n \<and> n \<le> 32))"

definition is_word :: "char \<Rightarrow> bool" where
  "is_word c = (let n = (of_char c :: nat) in
     (48 \<le> n \<and> n \<le> 57) \<or> (65 \<le> n \<and> n \<le> 90) \<or> n = 95 \<or> (97 \<le> n \<and> n \<le> 122))"

definition lower_char :: "char \<Rightarrow> char" where
  "lower_char c = (let n = (of_char c :: nat) in if 65 \<le> n \<and> n \<le> 90 then char_of (n + 32) else c)"

definition lower :: "string \<Rightarrow> string" where
  "lower s = map lower_char s"

text \<open>\<open>s.strip()\<close>: whitespace removed at both ends.\<close>

definition strip :: "string \<Rightarrow> string" where
  "strip s = rev (dropWhile is_space (rev (dropWhile is_space s)))"

text \<open>\<open>s.split()\<close>: the maximal runs of non-whitespace characters, in order.\<close>

function split_ws :: "string \<Rightarrow> string list" where
  "split_ws s =
     (let t = dropWhile is_space s
      in if t = [] then []
         else takeWhile (\<lambda>c. \<not> is_space c) t # split_ws (dropWhile (\<lambda>c. \<not> is_space c) t))"
  by pat_completeness auto
termination
proof (relation "measure length", goal_cases)
  case 1
  show ?case by simp
next
  case (2 s t)
  then have "\<not> is_space (hd t)" and "t \<noteq> []"
    using hd_dropWhile [of is_space s] by auto
  then have "length (dropWhile (\<lambda>c. \<not> is_space c) t) < length t"
    by (cases t) (auto intro: le_imp_less_Suc length_dropWhile_le)
  moreover have "length t \<le> length s"
    using 2 by (simp add: length_dropWhile_le)
  ultimately show ?case by simp
qed

declare split_ws.simps [simp del]

text \<open>\<open>s.split(sep)\<close> for a one-character separator: empty pieces are kept.\<close>

function split_on :: "char \<Rightarrow> string \<Rightarrow> string list" where
  "split_on sep s =
     (if sep \<in> set s
      then takeWhile (\<lambda>c. c \<noteq> sep) s # split_on sep (tl (dropWhile (\<lambda>c. c \<noteq> sep) s))
      else [s])"
  by pat_completeness auto
termination
proof (relation "measure (\<lambda>(sep, s). length s)", goal_cases)
  case 1
  show ?case by simp
next
  case (2 sep s)
  then have "dropWhile (\<lambda>c. c \<noteq> sep) s \<noteq> []"
    by simp
  then have "length (tl (dropWhile (\<lambda>c. c \<noteq> sep) s)) < length (dropWhile (\<lambda>c. c \<noteq> sep) s)"
    by (cases "dropWhile (\<lambda>c. c \<noteq> sep) s") auto
  then show ?case
    using length_dropWhile_le [of "\<lambda>c. c \<noteq> sep" s] by simp
qed

declare split_on.simps [simp del]

text \<open>\<open>t in s\<close> on strings: \<open>t\<close> occurs in \<open>s\<close> as a contiguous piece.\<close>

fun contains :: "string \<Rightarrow> string \<Rightarrow> bool" where
  "contains [] t = (t = [])"
| "contains (c # cs) t = (prefix t (c # cs) \<or> contains cs t)"

section \<open>The text normalizer\<close>

text \<open>
  \<^verbatim>\<open>re.sub(r'\s+', ' ', s)\<close>: every maximal run of whitespace becomes one space.
\<close>

function collapse_ws :: "string \<Rightarrow> string" where
  "collapse_ws [] = []"
| "collapse_ws (c # cs) =
     (if is_space c then CHR '' '' # collapse_ws (dropWhile is_space cs)
      else c # collapse_ws cs)"
  by pat_completeness auto
termination
  by (relation "measure length") (auto intro: le_imp_less_Suc length_dropWhile_le)

text \<open>
  \<^verbatim>\<open>
  def normalize_text(self, text):
      normalized = re.sub(r'[^\w\s]', '', text.lower())
      normalized = re.sub(r'\s+', ' ', normalized).strip()
      return normalized
  \<close>
\<close>

definition normalize_text :: "string \<Rightarrow> string" where
  "normalize_text text =
     (let normalized = filter (\<lambda>c. is_word c \<or> is_space c) (lower text)
      in strip (collapse_ws normalized))"

section \<open>The Python library, as far as the program calls it\<close>

text \<open>
  The program calls four library operations whose results depend on the text it is given:
  \<open>int(s)\<close> and \<open>float(s)\<close>, which raise \<open>ValueError\<close> on a string that is no
  number (the value \<open>None\<close> here); the conversion of an \<open>int\<close> to a \<open>float\<close> inside
  \<open>minutes * 60 + seconds\<close>, which raises \<open>OverflowError\<close> when the integer is beyond
  the range of a double; and \<open>difflib.SequenceMatcher(None, a, b).ratio()\<close>. They are
  taken as a parameter, so every general theorem below holds whatever these operations
  return.
\<close>

text \<open>
  A Python \<open>float\<close> is a finite number, one of the two infinities, or NaN; \<open>float(s)\<close>
  returns each of them (\<open>float('nan')\<close>, \<open>float('inf')\<close>). A finite float is modelled
  by the rational number it denotes, and sums of finite floats are taken exactly:
  rounding, and with it the overflow of a sum and the underflow to zero, is not modelled.
  The comparisons and the sum follow IEEE 754 on the special values: every comparison
  with NaN is false, and a sum with NaN, or of the two infinities, is NaN.
\<close>

datatype pyfloat = Num rat | PosInf | NegInf | NaN

fun float_less :: "pyfloat \<Rightarrow> pyfloat \<Rightarrow> bool" where
  "float_less (Num a) (Num b) = (a < b)"
| "float_less (Num a) PosInf = True"
| "float_less NegInf (Num b) = True"
| "float_less NegInf PosInf = True"
| "float_less _ _ = False"


fun float_add :: "pyfloat \<Rightarrow> pyfloat \<Rightarrow> pyfloat" where
  "float_add NaN _ = NaN"
| "float_add _ NaN = NaN"
| "float_add (Num a) (Num b) = Num (a + b)"
| "float_add PosInf NegInf = NaN"
| "float_add NegInf PosInf = NaN"
| "float_add PosInf _ = PosInf"
| "float_add _ PosInf = PosInf"
| "float_add NegInf _ = NegInf"
| "float_add _ NegInf = NegInf"

text \<open>
  \<open>sorted(xs, key=f)\<close> and \<open>xs.sort(key=f)\<close> compare the keys with \<open><\<close> only and
  are stable. Where \<open><\<close> orders the keys, every such sort returns the same list; it is
  computed here by insertion, an element going in front of the first element that is not
  smaller than it. With NaN among the keys \<open><\<close> is no order: an element that no
  comparison separates from its neighbours stays where it is, in this insertion as in
  CPython's sort on the short lists evaluated below.
\<close>

fun py_insort :: "('a \<Rightarrow> pyfloat) \<Rightarrow> 'a \<Rightarrow> 'a list \<Rightarrow> 'a list" where
  "py_insort key x [] = [x]"
| "py_insort key x (y # ys) =
     (if float_less (key y) (key x) then y # py_insort key x ys else x # y # ys)"

definition py_sorted :: "('a \<Rightarrow> pyfloat) \<Rightarrow> 'a list \<Rightarrow> 'a list" where
  "py_sorted key xs = foldr (py_insort key) xs []"

record pylib =
  int_of :: "string \<Rightarrow> int option"
  float_of :: "string \<Rightarrow> pyfloat option"
  int_too_large :: "int \<Rightarrow> bool"
  ratio :: "string \<Rightarrow> string \<Rightarrow> rat"

section \<open>The transcript parser\<close>

datatype line_result = Skip | Keep "pyfloat \<times> string" | Abort

definition metadata_tags :: "string list" where
  "metadata_tags = [''ar:'', ''al:'', ''ti:'', ''length:'', ''id:'']"

text \<open>
  One turn of the loop of \<open>parse_lrc_file\<close>. \<open>Skip\<close> is \<open>continue\<close> (also from the
  inner handler of \<open>ValueError\<close> and \<open>IndexError\<close>) and a line that appends
  nothing; \<open>Keep\<close> is the append; \<open>Abort\<close> is an exception that the inner handler does
  not catch, so that the outer one returns the empty list.
  \<^verbatim>\<open>
  line = line.strip()
  if not line:
      continue
  if line.startswith('[') and any(tag in line.lower()
          for tag in ['ar:', 'al:', 'ti:', 'length:', 'id:']):
      continue
  if line.startswith('[') and ']' in line:
      try:
          timestamp_str = line[1:line.index(']')]
          lyric_text = line[line.index(']') + 1:].strip()
          if ':' in timestamp_str:
              time_parts = timestamp_str.split(':')
              minutes = int(time_parts[0])
              seconds = float(time_parts[1])
              total_seconds = minutes * 60 + seconds
              if lyric_text:
                  lyrics_with_time.append((total_seconds, lyric_text))
      except (ValueError, IndexError):
          continue
  \<close>
\<close>

definition parse_line :: "pylib \<Rightarrow> string \<Rightarrow> line_result" where
  "parse_line L raw =
     (let line = strip raw
      in if line = [] then Skip
         else if prefix ''['' line \<and> list_ex (\<lambda>tag. contains (lower line) tag) metadata_tags
         then Skip
         else if prefix ''['' line \<and> CHR '']'' \<in> set line
         then
           (let timestamp_str = takeWhile (\<lambda>c. c \<noteq> CHR '']'') (tl line);
                lyric_text = strip (tl (dropWhile (\<lambda>c. c \<noteq> CHR '']'') line))
            in if CHR '':'' \<in> set timestamp_str
               then
                 (case split_on CHR '':'' timestamp_str of
                    p0 # p1 # _ \<Rightarrow>
                      (case int_of L p0 of
                         None \<Rightarrow> Skip
                       | Some minutes \<Rightarrow>
                           (case float_of L p1 of
                              None \<Rightarrow> Skip
                            | Some seconds \<Rightarrow>
                                if int_too_large L (minutes * 60) then Abort
                                else if lyric_text \<noteq> []
                                then Keep (float_add (Num (rat_of_int (minutes * 60))) seconds, lyric_text)
                                else Skip))
                  | _ \<Rightarrow> Skip)
               else Skip)
         else Skip)"

fun parse_lines ::
  "pylib \<Rightarrow> string list \<Rightarrow> (pyfloat \<times> string) list \<Rightarrow> (pyfloat \<times> string) list option" where
  "parse_lines L [] lyrics_with_time = Some lyrics_with_time"
| "parse_lines L (raw # rest) lyrics_with_time =
     (case parse_line L raw of
        Skip \<Rightarrow> parse_lines L rest lyrics_with_time
      | Keep entry \<Rightarrow> parse_lines L rest (lyrics_with_time @ [entry])
      | Abort \<Rightarrow> None)"

text \<open>
  The file is the list of its lines, or \<open>None\<close> when it cannot be opened or read. In
  both failure cases the outer handler returns the empty list.
\<close>

definition parse_lrc_file :: "pylib \<Rightarrow> string list option \<Rightarrow> (pyfloat \<times> string) list" where
  "parse_lrc_file L lrc =
     (case lrc of
        None \<Rightarrow> []
      | Some content \<Rightarrow>
          (case parse_lines L content [] of
             None \<Rightarrow> []
           | Some lyrics_with_time \<Rightarrow> py_sorted fst lyrics_with_time))"


text \<open>
  \<^verbatim>\<open>
  for timestamp, word in timing_words:
      normalized_word = self.normalize_text(word)
      if normalized_word:
          timing_sequence.append((timestamp, normalized_word, word))
  \<close>
\<close>

definition create_word_timing_map ::
  "pylib \<Rightarrow> string list option \<Rightarrow> (pyfloat \<times> string \<times> string) list" where
  "create_word_timing_map L timing_lrc =
     concat (map (\<lambda>(timestamp, word).
                    let normalized_word = normalize_text word
                    in if normalized_word \<noteq> [] then [(timestamp, normalized_word, word)] else [])
                 (parse_lrc_file L timing_lrc))"

section \<open>The word aligner\<close>

datatype error = IndexError

text \<open>\<open>xs[i]\<close>: a negative index counts from the end; out of range raises.\<close>

definition py_index :: "'a list \<Rightarrow> int \<Rightarrow> error + 'a" where
  "py_index xs i =
     (if 0 \<le> i \<and> i < int (length xs) then Inr (xs ! nat i)
      else if i < 0 \<and> - int (length xs) \<le> i then Inr (xs ! nat (int (length xs) + i))
      else Inl IndexError)"

text \<open>A \<open>for\<close> loop over a list whose body may raise: the first exception ends it.\<close>

fun for_each :: "('a \<Rightarrow> 's \<Rightarrow> error + 's) \<Rightarrow> 'a list \<Rightarrow> 's \<Rightarrow> error + 's" where
  "for_each body [] st = Inr st"
| "for_each body (x # xs) st =
     (case body x st of Inl e \<Rightarrow> Inl e | Inr st' \<Rightarrow> for_each body xs st')"

type_synonym timing_entry = "pyfloat \<times> string \<times> string"
type_synonym timed_word = "pyfloat \<times> string \<times> bool"

text \<open>
  \<^verbatim>\<open>
  search_start = max(0, timing_index - 2)
  search_end = min(len(timing_sequence), timing_index + 50)
  ... range(search_start, search_end)
  \<close>
\<close>

definition search_range :: "int \<Rightarrow> nat \<Rightarrow> int list" where
  "search_range timing_index n =
     (let search_start = max 0 (timing_index - 2);
          search_end = min (int n) (timing_index + 50)
      in [search_start..search_end - 1])"

text \<open>
  The inner search loop; its result is \<open>found_timing\<close> with the new \<open>timing_index\<close>,
  or \<open>None\<close> when the loop ends without \<open>break\<close>.
  \<^verbatim>\<open>
  for search_idx in range(search_start, search_end):
      if search_idx < len(timing_sequence):
          timing_time, timing_norm_word, timing_orig_word = timing_sequence[search_idx]
          similarity = SequenceMatcher(None, normalized_word, timing_norm_word).ratio()
          if similarity > 0.8:
              found_timing = timing_time
              timing_index = search_idx + 1
              break
  \<close>
\<close>

fun find_timing ::
  "pylib \<Rightarrow> timing_entry list \<Rightarrow> string \<Rightarrow> int list \<Rightarrow> error + (pyfloat \<times> int) option" where
  "find_timing L timing_sequence normalized_word [] = Inr None"
| "find_timing L timing_sequence normalized_word (search_idx # rest) =
     (if search_idx < int (length timing_sequence)
      then
        (case py_index timing_sequence search_idx of
           Inl e \<Rightarrow> Inl e
         | Inr (timing_time, timing_norm_word, timing_orig_word) \<Rightarrow>
             if 8 / 10 < ratio L normalized_word timing_norm_word
             then Inr (Some (timing_time, search_idx + 1))
             else find_timing L timing_sequence normalized_word rest)
      else find_timing L timing_sequence normalized_word rest)"

text \<open>
  The body of the loop over the words of one line. The state is \<open>timing_index\<close> and
  \<open>word_level_lyrics\<close>; \<open>n\<close> is \<open>len(line_words)\<close>.
  \<^verbatim>\<open>
  normalized_word = self.normalize_text(word)
  found_timing = None
  (the search loop)
  if found_timing is None:
      if word_index == 0:
          found_timing = line_timestamp
      else:
          prev_timing = word_level_lyrics[-1][0] if word_level_lyrics else line_timestamp
          found_timing = prev_timing + 0.3
  is_line_end = (word_index == len(line_words) - 1)
  word_level_lyrics.append((found_timing, word, is_line_end))
  \<close>
\<close>

definition process_word ::
  "pylib \<Rightarrow> timing_entry list \<Rightarrow> pyfloat \<Rightarrow> nat \<Rightarrow> nat \<times> string \<Rightarrow> int \<times> timed_word list
     \<Rightarrow> error + (int \<times> timed_word list)" where
  "process_word L timing_sequence line_timestamp n =
     (\<lambda>(word_index, word) (timing_index, word_level_lyrics).
        let normalized_word = normalize_text word;
            is_line_end = (int word_index = int n - 1)
        in case find_timing L timing_sequence normalized_word
                  (search_range timing_index (length timing_sequence)) of
             Inl e \<Rightarrow> Inl e
           | Inr (Some (found_timing, timing_index')) \<Rightarrow>
               Inr (timing_index', word_level_lyrics @ [(found_timing, word, is_line_end)])
           | Inr None \<Rightarrow>
               (let found_timing =
                      (if word_index = 0 then line_timestamp
                       else float_add
                              (if word_level_lyrics \<noteq> [] then fst (last word_level_lyrics)
                               else line_timestamp)
                              (Num (3 / 10)))
                in Inr (timing_index, word_level_lyrics @ [(found_timing, word, is_line_end)])))"

text \<open>
  \<^verbatim>\<open>
  for line_timestamp, line_text in structure_lines:
      if not line_text.strip():
          continue
      line_words = line_text.split()
      for word_index, word in enumerate(line_words):
          (the body above)
  \<close>
\<close>

definition process_line ::
  "pylib \<Rightarrow> timing_entry list \<Rightarrow> pyfloat \<times> string \<Rightarrow> int \<times> timed_word list
     \<Rightarrow> error + (int \<times> timed_word list)" where
  "process_line L timing_sequence =
     (\<lambda>(line_timestamp, line_text) st.
        if strip line_text = [] then Inr st
        else
          (let line_words = split_ws line_text
           in for_each (process_word L timing_sequence line_timestamp (length line_words))
                (enumerate 0 line_words) st))"

text \<open>
  \<^verbatim>\<open>
  structure_lines = self.parse_lrc_file(structure_lrc)
  timing_sequence = self.create_word_timing_map(timing_lrc)
  if not structure_lines or not timing_sequence:
      return []
  word_level_lyrics = []
  timing_index = 0
  (the loop over the lines)
  word_level_lyrics.sort(key=lambda x: x[0])
  return word_level_lyrics
  \<close>
\<close>

definition create_word_level_lyrics ::
  "pylib \<Rightarrow> string list option \<Rightarrow> string list option \<Rightarrow> error + timed_word list" where
  "create_word_level_lyrics L structure_lrc timing_lrc =
     (let structure_lines = parse_lrc_file L structure_lrc;
          timing_sequence = create_word_timing_map L timing_lrc
      in if structure_lines = [] \<or> timing_sequence = [] then Inr []
         else
           (case for_each (process_line L timing_sequence) structure_lines (0, []) of
              Inl e \<Rightarrow> Inl e
            | Inr (timing_index, word_level_lyrics) \<Rightarrow> Inr (py_sorted fst word_level_lyrics)))"

text \<open>
  The run word by word. The two nested loops visit the words of the structure lines in
  one fixed order; \<open>word_jobs\<close> lists these visits, each with its line's timestamp and
  word count, and \<open>run_prefix k\<close> is the state after the first \<open>k\<close> of them, starting
  from \<open>timing_index = 0\<close> and an empty \<open>word_level_lyrics\<close>.
\<close>

definition word_jobs :: "(pyfloat \<times> string) list \<Rightarrow> (pyfloat \<times> nat \<times> nat \<times> string) list" where
  "word_jobs structure_lines =
     concat (map (\<lambda>(line_timestamp, line_text).
                    if strip line_text = [] then []
                    else
                      (let line_words = split_ws line_text
                       in map (\<lambda>iw. (line_timestamp, length line_words, iw))
                            (enumerate 0 line_words)))
                 structure_lines)"

definition process_job ::
  "pylib \<Rightarrow> timing_entry list \<Rightarrow> pyfloat \<times> nat \<times> nat \<times> string \<Rightarrow> int \<times> timed_word list
     \<Rightarrow> error + (int \<times> timed_word list)" where
  "process_job L timing_sequence = (\<lambda>(line_timestamp, n, iw). process_word L timing_sequence line_timestamp n iw)"

definition run_prefix ::
  "pylib \<Rightarrow> timing_entry list \<Rightarrow> (pyfloat \<times> string) list \<Rightarrow> nat \<Rightarrow> error + (int \<times> timed_word list)" where
  "run_prefix L timing_sequence structure_lines k =
     for_each (process_job L timing_sequence) (take k (word_jobs structure_lines)) (0, [])"

text \<open>
  The test of the search loop on the candidate at index \<open>i\<close>:
  \<^verbatim>\<open>SequenceMatcher(None, normalized_word, timing_norm_word).ratio() > 0.8\<close>.
\<close>

definition accepts :: "pylib \<Rightarrow> timing_entry list \<Rightarrow> string \<Rightarrow> int \<Rightarrow> bool" where
  "accepts L timing_sequence word i =
     (8 / 10 < ratio L (normalize_text word) (fst (snd (timing_sequence ! nat i))))"

section \<open>A concrete library for running the program\<close>

text \<open>
  To run the model on concrete transcripts the library parameter is instantiated with
  the decimal literals of Python. \<open>int(s)\<close> reads surrounding whitespace, an optional
  sign and decimal digits, which single underscores may group, and refuses more than 4300
  digits. \<open>float(s)\<close> reads, after whitespace and sign, \<open>nan\<close>, \<open>inf\<close> or
  \<open>infinity\<close> in any letter case, or digits with an optional fraction and an optional
  exponent; a value that rounds to \<open>2 ^ 1024\<close> or beyond is an infinity.
\<close>

definition is_digit :: "char \<Rightarrow> bool" where
  "is_digit c = (let n = (of_char c :: int) in 48 \<le> n \<and> n \<le> 57)"

definition valid_digits :: "string \<Rightarrow> bool" where
  "valid_digits ds =
     (ds \<noteq> [] \<and> is_digit (hd ds) \<and> is_digit (last ds)
      \<and> list_all (\<lambda>c. is_digit c \<or> c = CHR ''_'') ds \<and> \<not> contains ds ''__'')"

definition digits_value :: "string \<Rightarrow> int" where
  "digits_value ds = foldl (\<lambda>n c. 10 * n + (of_char c - 48)) 0 (filter is_digit ds)"

definition split_sign :: "string \<Rightarrow> bool \<times> string" where
  "split_sign s =
     (case s of
        [] \<Rightarrow> (False, [])
      | c # cs \<Rightarrow> if c = CHR ''-'' then (True, cs) else if c = CHR ''+'' then (False, cs) else (False, s))"

definition py_int :: "string \<Rightarrow> int option" where
  "py_int s =
     (let (negative, body) = split_sign (strip s)
      in if valid_digits body \<and> length (filter is_digit body) \<le> 4300
         then Some (if negative then - digits_value body else digits_value body)
         else None)"

text \<open>
  The largest magnitude that still rounds to a finite double lies below
  \<open>2 ^ 1024 - 2 ^ 970\<close>.
\<close>

definition double_limit :: int where
  "double_limit = 2 ^ 1024 - 2 ^ 970"

definition float_of_rat :: "rat \<Rightarrow> pyfloat" where
  "float_of_rat v =
     (if rat_of_int double_limit \<le> v then PosInf
      else if v \<le> - rat_of_int double_limit then NegInf
      else Num v)"

definition is_exponent_mark :: "char \<Rightarrow> bool" where
  "is_exponent_mark c = (c = CHR ''e'' \<or> c = CHR ''E'')"

definition py_float :: "string \<Rightarrow> pyfloat option" where
  "py_float s =
     (let (negative, body) = split_sign (strip s)
      in if lower body = ''nan'' then Some NaN
         else if lower body = ''inf'' \<or> lower body = ''infinity''
         then Some (if negative then NegInf else PosInf)
         else
           (let mantissa = takeWhile (\<lambda>c. \<not> is_exponent_mark c) body;
                exponent = drop (Suc (length mantissa)) body;
                has_exponent = (length mantissa < length body);
                (exponent_negative, exponent_digits) = split_sign exponent;
                whole = takeWhile (\<lambda>c. c \<noteq> CHR ''.'') mantissa;
                frac = drop (Suc (length whole)) mantissa
            in if (whole = [] \<or> valid_digits whole) \<and> (frac = [] \<or> valid_digits frac)
                  \<and> whole @ frac \<noteq> []
                  \<and> (if has_exponent then valid_digits exponent_digits else True)
               then
                 (let digits = rat_of_int (digits_value (whole @ frac))
                               / 10 ^ length (filter is_digit frac);
                      scale = (10 :: rat) ^ nat (digits_value exponent_digits);
                      v = (if exponent_negative then digits / scale else digits * scale)
                  in Some (float_of_rat (if negative then - v else v)))
               else None))"

definition py_int_too_large :: "int \<Rightarrow> bool" where
  "py_int_too_large n = (double_limit \<le> \<bar>n\<bar>)"

text \<open>
  \<open>SequenceMatcher(None, a, b).ratio()\<close> with no junk: the longest common block of
  \<open>a\<close> and \<open>b\<close> (the earliest in \<open>a\<close>, then the earliest in \<open>b\<close>, among the
  longest) is matched, then the pieces to its left and to its right, recursively; the
  ratio is twice the number of matched characters over the sum of the lengths, and 1 for
  two empty strings. This is difflib's result for a second string of fewer than 200
  characters, where its popularity heuristic is inactive.
\<close>

fun common_prefix_length :: "string \<Rightarrow> string \<Rightarrow> nat" where
  "common_prefix_length (x # xs) (y # ys) = (if x = y then Suc (common_prefix_length xs ys) else 0)"
| "common_prefix_length _ _ = 0"

definition find_longest_match :: "string \<Rightarrow> string \<Rightarrow> nat \<times> nat \<times> nat" where
  "find_longest_match a b =
     foldl (\<lambda>(besti, bestj, bestsize) (i, j).
              let k = common_prefix_length (drop i a) (drop j b)
              in if bestsize < k then (i, j, k) else (besti, bestj, bestsize))
           (0, 0, 0)
           (List.product [0..<length a] [0..<length b])"

lemma find_longest_match_bounds:
  assumes "find_longest_match a b = (i, j, k)" and "0 < k"
  shows "i < length a \<and> j < length b"
proof -
  have inv: "(case foldl (\<lambda>(besti, bestj, bestsize) (i, j).
                let k = common_prefix_length (drop i a) (drop j b)
                in if bestsize < k then (i, j, k) else (besti, bestj, bestsize)) st ps
              of (i, j, k) \<Rightarrow> 0 < k \<longrightarrow> i < length a \<and> j < length b)"
    if "case st of (i, j, k) \<Rightarrow> 0 < k \<longrightarrow> i < length a \<and> j < length b"
      and "\<forall>(i, j) \<in> set ps. i < length a \<and> j < length b"
    for st ps
    using that
  proof (induction ps arbitrary: st)
    case Nil
    then show ?case by simp
  next
    case (Cons p ps)
    show ?case
      unfolding foldl_Cons
    proof (rule Cons.IH)
      show "case (case st of (besti, bestj, bestsize) \<Rightarrow> \<lambda>(i, j).
                let k = common_prefix_length (drop i a) (drop j b)
                in if bestsize < k then (i, j, k) else (besti, bestj, bestsize)) p
            of (i, j, k) \<Rightarrow> 0 < k \<longrightarrow> i < length a \<and> j < length b"
        using Cons.prems by (cases st; cases p) (auto simp: Let_def)
      show "\<forall>(i, j) \<in> set ps. i < length a \<and> j < length b"
        using Cons.prems by simp
    qed
  qed
  have "case find_longest_match a b of (i, j, k) \<Rightarrow> 0 < k \<longrightarrow> i < length a \<and> j < length b"
    unfolding find_longest_match_def by (rule inv) auto
  with assms show ?thesis by simp
qed

function matching_size :: "string \<Rightarrow> string \<Rightarrow> nat" where
  "matching_size a b =
     (case find_longest_match a b of
        (i, j, k) \<Rightarrow>
          if k = 0 then 0
          else matching_size (take i a) (take j b) + k
               + matching_size (drop (i + k) a) (drop (j + k) b))"
  by pat_completeness auto
termination
proof (relation "measure (\<lambda>(a, b). length a + length b)", goal_cases)
  case 1
  show ?case by simp
next
  case (2 a b i y j k)
  then have "find_longest_match a b = (i, j, k)" and "0 < k" by auto
  from find_longest_match_bounds [OF this] show ?case by simp
next
  case (3 a b i y j k)
  then have "find_longest_match a b = (i, j, k)" and "0 < k" by auto
  from find_longest_match_bounds [OF this] \<open>0 < k\<close> show ?case by auto
qed

declare matching_size.simps [simp del]

definition sequence_ratio :: "string \<Rightarrow> string \<Rightarrow> rat" where
  "sequence_ratio a b =
     (if length a + length b = 0 then 1
      else 2 * rat_of_nat (matching_size a b) / rat_of_nat (length a + length b))"

definition python :: pylib where
  "python = \<lparr> int_of = py_int, float_of = py_float, int_too_large = py_int_too_large,
              ratio = sequence_ratio \<rparr>"


section \<open>Loops, the search window and one step of the run\<close>

lemma for_each_append:
  "for_each body (xs @ ys) st =
     (case for_each body xs st of Inl e \<Rightarrow> Inl e | Inr st' \<Rightarrow> for_each body ys st')"
  by (induction xs arbitrary: st) (auto split: sum.splits)

lemma for_each_map:
  "for_each body (map f xs) st = for_each (\<lambda>x. body (f x)) xs st"
  by (induction xs arbitrary: st) (auto split: sum.splits)

lemma for_each_total:
  assumes "\<And>x st. \<exists>st'. body x st = Inr st'"
  shows "\<exists>st'. for_each body xs st = Inr st'"
proof (induction xs arbitrary: st)
  case Nil
  show ?case by simp
next
  case (Cons x xs)
  obtain st1 where "body x st = Inr st1" using assms by blast
  then show ?case using Cons.IH [of st1] by simp
qed

lemma process_line_jobs:
  "process_line L ts line st =
     for_each (process_job L ts) (word_jobs [line]) st"
  by (cases line) (simp add: process_line_def word_jobs_def Let_def for_each_map process_job_def)

lemma word_jobs_Cons:
  "word_jobs (line # rest) = word_jobs [line] @ word_jobs rest"
  by (simp add: word_jobs_def)

lemma process_lines_jobs:
  "for_each (process_line L ts) structure_lines st =
     for_each (process_job L ts) (word_jobs structure_lines) st"
proof (induction structure_lines arbitrary: st)
  case Nil
  show ?case by (simp add: word_jobs_def)
next
  case (Cons line rest)
  have "for_each (process_line L ts) (line # rest) st =
      (case process_line L ts line st of
         Inl e \<Rightarrow> Inl e
       | Inr st' \<Rightarrow> for_each (process_job L ts) (word_jobs rest) st')"
    by (simp add: Cons.IH split: sum.splits)
  moreover have "process_line L ts line st = for_each (process_job L ts) (word_jobs [line]) st"
    by (rule process_line_jobs)
  ultimately show ?case
    unfolding word_jobs_Cons [of line rest] for_each_append by simp
qed

lemma run_prefix_all:
  "run_prefix L ts structure_lines (length (word_jobs structure_lines)) =
     for_each (process_line L ts) structure_lines (0, [])"
  by (simp add: run_prefix_def process_lines_jobs)

lemma run_prefix_0: "run_prefix L ts structure_lines 0 = Inr (0, [])"
  by (simp add: run_prefix_def)

lemma run_prefix_Suc:
  assumes "k < length (word_jobs structure_lines)"
  shows "run_prefix L ts structure_lines (Suc k) =
     (case run_prefix L ts structure_lines k of
        Inl e \<Rightarrow> Inl e
      | Inr st \<Rightarrow> process_job L ts (word_jobs structure_lines ! k) st)"
  using assms
  by (simp add: run_prefix_def take_Suc_conv_app_nth for_each_append split: sum.splits)

lemma py_index_in_range:
  "0 \<le> i \<Longrightarrow> i < int (length xs) \<Longrightarrow> py_index xs i = Inr (xs ! nat i)"
  by (simp add: py_index_def)

lemma find_timing_find:
  assumes "\<forall>i \<in> set idxs. 0 \<le> i \<and> i < int (length ts)"
  shows "find_timing L ts w idxs =
     Inr (case find (\<lambda>i. 8 / 10 < ratio L w (fst (snd (ts ! nat i)))) idxs of
            None \<Rightarrow> None
          | Some i \<Rightarrow> Some (fst (ts ! nat i), i + 1))"
  using assms
  by (induction idxs) (auto simp: py_index_in_range split: prod.splits)

lemma search_range_set:
  "set (search_range c n) = {i. max 0 (c - 2) \<le> i \<and> i < min (int n) (c + 50)}"
  by (auto simp: search_range_def Let_def)


lemma find_upto_Some:
  "find P [a..b] = Some i \<longleftrightarrow> a \<le> i \<and> i \<le> b \<and> P i \<and> (\<forall>j. a \<le> j \<and> j < i \<longrightarrow> \<not> P j)"
proof (induction a b rule: upto.induct)
  case (1 a b)
  show ?case
  proof (cases "a \<le> b")
    case False
    then show ?thesis by auto
  next
    case True
    then have unfold: "[a..b] = a # [a + 1..b]" by (rule upto_rec1)
    show ?thesis
    proof (cases "P a")
      case True
      then show ?thesis
        unfolding unfold using \<open>a \<le> b\<close> by (auto simp: not_less)
    next
      case False
      have "(\<forall>j. a \<le> j \<and> j < i \<longrightarrow> \<not> P j) \<longleftrightarrow> (\<forall>j. a + 1 \<le> j \<and> j < i \<longrightarrow> \<not> P j)"
        using False by (metis add1_zle_eq order_le_less)
      moreover have "a \<le> i \<and> P i \<longleftrightarrow> a + 1 \<le> i \<and> P i"
        using False by (metis add1_zle_eq order_le_less)
      ultimately show ?thesis
        unfolding unfold using False 1 [OF True] by auto
    qed
  qed
qed

lemma find_upto_None:
  "find P [a..b] = None \<longleftrightarrow> (\<forall>j. a \<le> j \<and> j \<le> b \<longrightarrow> \<not> P j)"
  by (auto simp: find_None_iff)

lemma find_search_range_Some:
  "find P (search_range c n) = Some i \<longleftrightarrow>
     max 0 (c - 2) \<le> i \<and> i < min (int n) (c + 50) \<and> P i
     \<and> (\<forall>j. max 0 (c - 2) \<le> j \<and> j < i \<longrightarrow> \<not> P j)"
  unfolding search_range_def Let_def find_upto_Some by auto

lemma find_search_range_None:
  "find P (search_range c n) = None \<longleftrightarrow>
     (\<forall>j. max 0 (c - 2) \<le> j \<and> j < min (int n) (c + 50) \<longrightarrow> \<not> P j)"
  unfolding search_range_def Let_def find_upto_None by auto

lemma process_word_find:
  "process_word L ts line_timestamp n (word_index, word) (timing_index, wll) =
     Inr (case find (accepts L ts word) (search_range timing_index (length ts)) of
            Some i \<Rightarrow> (i + 1, wll @ [(fst (ts ! nat i), word, int word_index = int n - 1)])
          | None \<Rightarrow>
              (timing_index,
               wll @ [(if word_index = 0 then line_timestamp
                       else float_add (if wll \<noteq> [] then fst (last wll) else line_timestamp) (Num (3 / 10)),
                       word, int word_index = int n - 1)]))"
proof -
  have "\<forall>i \<in> set (search_range timing_index (length ts)). 0 \<le> i \<and> i < int (length ts)"
    by (simp add: search_range_set)
  from find_timing_find [OF this, of L "normalize_text word"]
  show ?thesis
    by (simp add: process_word_def accepts_def [abs_def] Let_def split: option.splits)
qed

lemma run_step:
  assumes "run_prefix L ts structure_lines k = Inr (timing_index, wll)"
    and "k < length (word_jobs structure_lines)"
    and "word_jobs structure_lines ! k = (line_timestamp, n, word_index, word)"
  shows "run_prefix L ts structure_lines (Suc k) =
     Inr (case find (accepts L ts word) (search_range timing_index (length ts)) of
            Some i \<Rightarrow> (i + 1, wll @ [(fst (ts ! nat i), word, int word_index = int n - 1)])
          | None \<Rightarrow>
              (timing_index,
               wll @ [(if word_index = 0 then line_timestamp
                       else float_add (if wll \<noteq> [] then fst (last wll) else line_timestamp) (Num (3 / 10)),
                       word, int word_index = int n - 1)]))"
  using assms by (simp add: run_prefix_Suc process_job_def process_word_find)

lemma run_prefix_beyond:
  assumes "length (word_jobs structure_lines) \<le> k"
  shows "run_prefix L ts structure_lines (Suc k) = run_prefix L ts structure_lines k"
  using assms by (simp add: run_prefix_def)

lemma run_prefix_total:
  "\<exists>timing_index wll. run_prefix L ts structure_lines k = Inr (timing_index, wll)"
proof -
  have "\<exists>st'. process_job L ts job st = Inr st'" for job st
    by (cases job; cases st) (simp add: process_job_def process_word_find)
  from for_each_total [of "process_job L ts", OF this] show ?thesis
    unfolding run_prefix_def by simp
qed

lemma run_prefix_invariant:
  assumes "run_prefix L ts structure_lines k = Inr (timing_index, wll)"
  shows "0 \<le> timing_index \<and> timing_index \<le> int (length ts)
         \<and> length wll = min k (length (word_jobs structure_lines))"
  using assms
proof (induction k arbitrary: timing_index wll)
  case 0
  then show ?case by (simp add: run_prefix_0)
next
  case (Suc k)
  show ?case
  proof (cases "k < length (word_jobs structure_lines)")
    case False
    then have "run_prefix L ts structure_lines k = Inr (timing_index, wll)"
      using Suc.prems by (simp add: run_prefix_beyond)
    from Suc.IH [OF this] False show ?thesis by simp
  next
    case True
    obtain c0 wll0 where st: "run_prefix L ts structure_lines k = Inr (c0, wll0)"
      using run_prefix_total by blast
    obtain line_timestamp n word_index word
      where job: "word_jobs structure_lines ! k = (line_timestamp, n, word_index, word)"
      by (cases "word_jobs structure_lines ! k") auto
    note ih = Suc.IH [OF st]
    show ?thesis
    proof (cases "find (accepts L ts word) (search_range c0 (length ts))")
      case None
      with run_step [OF st True job] Suc.prems ih True show ?thesis by auto
    next
      case (Some i)
      then have "0 \<le> i \<and> i < int (length ts)"
        unfolding find_search_range_Some by simp
      with run_step [OF st True job] Suc.prems ih True Some show ?thesis by auto
    qed
  qed
qed

lemma word_jobs_prev:
  assumes "k < length (word_jobs structure_lines)"
    and "word_jobs structure_lines ! k = (line_timestamp, n, word_index, word)"
    and "word_index \<noteq> 0"
  shows "0 < k \<and> (\<exists>w'. word_jobs structure_lines ! (k - 1) = (line_timestamp, n, word_index - 1, w'))"
  using assms
proof (induction structure_lines arbitrary: k)
  case Nil
  then show ?case by (simp add: word_jobs_def)
next
  case (Cons line rest)
  obtain lt line_text where line: "line = (lt, line_text)" by (cases line)
  define block where "block = word_jobs [line]"
  have jobs: "word_jobs (line # rest) = block @ word_jobs rest"
    unfolding block_def by (rule word_jobs_Cons)
  have block_nth: "block ! i = (lt, length (split_ws line_text), i, split_ws line_text ! i)"
    and block_len: "length block \<le> length (split_ws line_text)" if "i < length block" for i
    using that unfolding block_def line word_jobs_def
    by (auto simp: Let_def nth_enumerate_eq split: if_splits)
  show ?case
  proof (cases "k < length block")
    case True
    from block_nth [OF True] Cons.prems(2) have idx: "word_index = k" "line_timestamp = lt"
      "n = length (split_ws line_text)"
      unfolding jobs by (simp_all add: nth_append True)
    with Cons.prems(3) have "0 < k" by simp
    then have "k - 1 < length block" using True by simp
    from block_nth [OF this] idx \<open>k - 1 < length block\<close> \<open>0 < k\<close> show ?thesis
      unfolding jobs by (simp add: nth_append)
  next
    case False
    then have k': "k - length block < length (word_jobs rest)"
      using Cons.prems(1) unfolding jobs by auto
    have "word_jobs rest ! (k - length block) = (line_timestamp, n, word_index, word)"
      using Cons.prems(2) False unfolding jobs by (simp add: nth_append)
    from Cons.IH [OF k' this Cons.prems(3)]
    obtain w' where pos: "0 < k - length block"
      and prev: "word_jobs rest ! (k - length block - 1) = (line_timestamp, n, word_index - 1, w')"
      by blast
    from pos have "\<not> k - 1 < length block" by auto
    moreover have "k - 1 - length block = k - length block - 1" by simp
    ultimately show ?thesis
      using pos prev unfolding jobs by (auto simp: nth_append)
  qed
qed

section \<open>Facts about the parser\<close>





section \<open>Facts about the sort and about the entries of a run\<close>







lemma py_insort_count:
  "length (filter P (py_insort key x ys)) = length (filter P (x # ys))"
  by (induction ys) auto

lemma py_sorted_count:
  "length (filter P (py_sorted key xs)) = length (filter P xs)"
  unfolding py_sorted_def by (induction xs) (auto simp: py_insort_count)





lemma for_each_entries:
  assumes "for_each (process_job L ts) jobs (c, wll0) = Inr (c', wll')"
  shows "map snd wll' = map snd wll0 @ map (\<lambda>(lt, n, i, w). (w, int i = int n - 1)) jobs"
  using assms
proof (induction jobs arbitrary: c wll0)
  case Nil
  then show ?case by simp
next
  case (Cons job jobs)
  obtain lt n i w where job: "job = (lt, n, i, w)" by (cases job)
  obtain c1 wll1 where step: "process_job L ts job (c, wll0) = Inr (c1, wll1)"
    and rest: "for_each (process_job L ts) jobs (c1, wll1) = Inr (c', wll')"
    using Cons.prems by (auto split: sum.splits)
  have "map snd wll1 = map snd wll0 @ [(w, int i = int n - 1)]"
    using step unfolding job process_job_def
    by (auto simp: process_word_find split: option.splits)
  with Cons.IH [OF rest] show ?case by (simp add: job)
qed

lemma strip_empty_split_ws:
  assumes "strip s = []"
  shows "split_ws s = []"
proof -
  have "\<forall>c \<in> set (dropWhile is_space s). is_space c"
    using assms unfolding strip_def by (simp add: dropWhile_eq_Nil_conv)
  then have "dropWhile is_space s = []"
    using hd_dropWhile [of is_space s] by (cases "dropWhile is_space s") auto
  then show ?thesis by (simp add: split_ws.simps)
qed

lemma word_jobs_entries:
  "map (\<lambda>(lt, n, i, w). (w, int i = int n - 1)) (word_jobs structure_lines) =
     concat (map (\<lambda>(line_timestamp, line_text).
                    map (\<lambda>(i, w). (w, Suc i = length (split_ws line_text)))
                      (enumerate 0 (split_ws line_text)))
                 structure_lines)"
proof (induction structure_lines)
  case Nil
  show ?case by (simp add: word_jobs_def)
next
  case (Cons line rest)
  obtain lt line_text where line: "line = (lt, line_text)" by (cases line)
  have "map (\<lambda>(lt, n, i, w). (w, int i = int n - 1)) (word_jobs [line]) =
      map (\<lambda>(i, w). (w, Suc i = length (split_ws line_text))) (enumerate 0 (split_ws line_text))"
    unfolding line word_jobs_def
    by (auto simp: Let_def strip_empty_split_ws)
  then show ?case
    unfolding word_jobs_Cons [of line rest] using Cons.IH by (simp add: line)
qed

lemma one_line_end:
  "length (filter snd (map (\<lambda>(i, w). (w, Suc i = m + length ws)) (enumerate m ws))) =
     (if ws = [] then 0 else 1)"
proof (induction ws arbitrary: m)
  case Nil
  show ?case by simp
next
  case (Cons w ws)
  have "map (\<lambda>(i, w'). (w', Suc i = m + length (w # ws))) (enumerate (Suc m) ws) =
        map (\<lambda>(i, w'). (w', Suc i = Suc m + length ws)) (enumerate (Suc m) ws)"
    by simp
  with Cons.IH [of "Suc m"] show ?case by (cases ws) auto
qed

lemma line_end_count:
  "length (filter snd
     (concat (map (\<lambda>(line_timestamp, line_text).
                    map (\<lambda>(i, w). (w, Suc i = length (split_ws line_text)))
                      (enumerate 0 (split_ws line_text)))
                 structure_lines))) =
   length (filter (\<lambda>(line_timestamp, line_text). split_ws line_text \<noteq> []) structure_lines)"
proof (induction structure_lines)
  case Nil
  show ?case by simp
next
  case (Cons line rest)
  obtain lt line_text where line: "line = (lt, line_text)" by (cases line)
  from one_line_end [of 0 "split_ws line_text"] Cons.IH show ?case
    by (simp add: line)
qed

lemma aligner_cases:
  assumes "create_word_level_lyrics L structure_lrc timing_lrc = Inr out"
  shows "((parse_lrc_file L structure_lrc = [] \<or> create_word_timing_map L timing_lrc = [])
           \<and> out = [])
       \<or> (parse_lrc_file L structure_lrc \<noteq> [] \<and> create_word_timing_map L timing_lrc \<noteq> []
           \<and> (\<exists>timing_index wll.
                 run_prefix L (create_word_timing_map L timing_lrc) (parse_lrc_file L structure_lrc)
                   (length (word_jobs (parse_lrc_file L structure_lrc))) = Inr (timing_index, wll)
                 \<and> out = py_sorted fst wll))"
  using assms unfolding run_prefix_all create_word_level_lyrics_def Let_def
  by (auto split: if_splits sum.splits)

section \<open>The search window\<close>

text \<open>
  Claim C1. Take any word of the run: the state before it is \<open>(timing_index, wll)\<close>
  and the word is the \<open>k\<close>-th visit. Either some index \<open>i\<close> with
  \<open>max 0 (timing_index - 2) \<le> i < min (length ts) (timing_index + 50)\<close> passes the
  similarity test (ratio above 0.8 against the normalized word), no earlier index of the
  window passes it, the word gets the timestamp of candidate \<open>i\<close> and the cursor becomes
  \<open>i + 1\<close>; or no index of the window passes the test and the cursor stays where it
  was. Candidates outside the window play no part.
\<close>

theorem window_search:
  assumes "run_prefix L ts structure_lines k = Inr (timing_index, wll)"
    and "k < length (word_jobs structure_lines)"
    and "word_jobs structure_lines ! k = (line_timestamp, n, word_index, word)"
  shows "(\<exists>i. max 0 (timing_index - 2) \<le> i \<and> i < min (int (length ts)) (timing_index + 50)
            \<and> accepts L ts word i
            \<and> (\<forall>j. max 0 (timing_index - 2) \<le> j \<and> j < i \<longrightarrow> \<not> accepts L ts word j)
            \<and> run_prefix L ts structure_lines (Suc k) =
                Inr (i + 1, wll @ [(fst (ts ! nat i), word, int word_index = int n - 1)]))
       \<or> ((\<forall>j. max 0 (timing_index - 2) \<le> j \<and> j < min (int (length ts)) (timing_index + 50)
                 \<longrightarrow> \<not> accepts L ts word j)
           \<and> (\<exists>found_timing. run_prefix L ts structure_lines (Suc k) =
                Inr (timing_index, wll @ [(found_timing, word, int word_index = int n - 1)])))"
proof (cases "find (accepts L ts word) (search_range timing_index (length ts))")
  case None
  from None have "\<forall>j. max 0 (timing_index - 2) \<le> j \<and> j < min (int (length ts)) (timing_index + 50)
                 \<longrightarrow> \<not> accepts L ts word j"
    unfolding find_search_range_None .
  moreover have "\<exists>found_timing. run_prefix L ts structure_lines (Suc k) =
                Inr (timing_index, wll @ [(found_timing, word, int word_index = int n - 1)])"
    unfolding run_step [OF assms] None by simp
  ultimately show ?thesis by blast
next
  case (Some i)
  from Some have "max 0 (timing_index - 2) \<le> i \<and> i < min (int (length ts)) (timing_index + 50)
      \<and> accepts L ts word i
      \<and> (\<forall>j. max 0 (timing_index - 2) \<le> j \<and> j < i \<longrightarrow> \<not> accepts L ts word j)"
    unfolding find_search_range_Some .
  moreover have "run_prefix L ts structure_lines (Suc k) =
      Inr (i + 1, wll @ [(fst (ts ! nat i), word, int word_index = int n - 1)])"
    unfolding run_step [OF assms] Some by simp
  ultimately show ?thesis by blast
qed

theorem window_search_witness:
  "run_prefix python [(Num 1, ''a'', ''a''), (Num 2, ''b'', ''b'')] [(Num 10, ''b a'')] 0 = Inr (0, [])
   \<and> 0 < length (word_jobs [(Num 10, ''b a'')])
   \<and> word_jobs [(Num 10, ''b a'')] ! 0 = (Num 10, 2, 0, ''b'')
   \<and> run_prefix python [(Num 1, ''a'', ''a''), (Num 2, ''b'', ''b'')] [(Num 10, ''b a'')] (Suc 0) =
       Inr (2, [(Num 2, ''b'', False)])"
proof -
  let ?ts = "[(Num 1, ''a'', ''a''), (Num 2, ''b'', ''b'')]"
  let ?lines = "[(Num 10, ''b a'')]"
  have h1: "run_prefix python ?ts ?lines 0 = Inr (0, [])" by code_simp
  have h2: "0 < length (word_jobs ?lines)" by code_simp
  have h3: "word_jobs ?lines ! 0 = (Num 10, 2, 0, ''b'')" by code_simp
  have a0: "\<not> accepts python ?ts ''b'' 0" by code_simp
  have r: "run_prefix python ?ts ?lines (Suc 0) = Inr (2, [(Num 2, ''b'', False)])" by code_simp
  from window_search [OF h1 h2 h3] h1 h2 h3 r show ?thesis by blast
qed

section \<open>The cursor\<close>

text \<open>
  Claim C10. After any number \<open>k\<close> of words the cursor lies between 0 and the length
  of the timing sequence, and the next word leaves it at \<open>timing_index - 1\<close> or above.
\<close>

theorem cursor_in_range:
  assumes "run_prefix L ts structure_lines k = Inr (timing_index, wll)"
  shows "0 \<le> timing_index \<and> timing_index \<le> int (length ts)
         \<and> (\<forall>timing_index' wll'.
               run_prefix L ts structure_lines (Suc k) = Inr (timing_index', wll')
               \<longrightarrow> timing_index - 1 \<le> timing_index')"
proof -
  have "timing_index - 1 \<le> timing_index'"
    if next_state: "run_prefix L ts structure_lines (Suc k) = Inr (timing_index', wll')"
    for timing_index' wll'
  proof (cases "k < length (word_jobs structure_lines)")
    case False
    then show ?thesis
      using assms next_state by (simp add: run_prefix_beyond)
  next
    case True
    obtain line_timestamp n word_index word
      where job: "word_jobs structure_lines ! k = (line_timestamp, n, word_index, word)"
      by (cases "word_jobs structure_lines ! k") auto
    show ?thesis
    proof (cases "find (accepts L ts word) (search_range timing_index (length ts))")
      case None
      with run_step [OF assms True job] next_state show ?thesis by simp
    next
      case (Some i)
      then have "timing_index - 2 \<le> i"
        unfolding find_search_range_Some by simp
      with run_step [OF assms True job] next_state Some show ?thesis by simp
    qed
  qed
  with run_prefix_invariant [OF assms] show ?thesis by blast
qed

theorem cursor_in_range_witness:
  "run_prefix python [(Num 1, ''a'', ''a''), (Num 2, ''b'', ''b'')] [(Num 10, ''b a'')] 1 = Inr (2, [(Num 2, ''b'', False)])
   \<and> run_prefix python [(Num 1, ''a'', ''a''), (Num 2, ''b'', ''b'')] [(Num 10, ''b a'')] (Suc 1) =
       Inr (1, [(Num 2, ''b'', False), (Num 1, ''a'', True)])
   \<and> (0 :: int) \<le> 2 \<and> (2 :: int) \<le> int (length [(Num 1, ''a'', ''a''), (Num 2, ''b'', ''b'')])
   \<and> (2 :: int) - 1 \<le> 1"
proof -
  let ?ts = "[(Num 1, ''a'', ''a''), (Num 2, ''b'', ''b'')]"
  let ?lines = "[(Num 10, ''b a'')]"
  have h1: "run_prefix python ?ts ?lines 1 = Inr (2, [(Num 2, ''b'', False)])" by code_simp
  have h2: "run_prefix python ?ts ?lines (Suc 1) = Inr (1, [(Num 2, ''b'', False), (Num 1, ''a'', True)])"
    by code_simp
  from cursor_in_range [OF h1] h1 h2 show ?thesis by blast
qed

text \<open>
  Claim C2, as stated, fails: the search window starts two positions before the cursor,
  so a match there sets the cursor one position back. With the timing words \<open>a\<close>,
  \<open>b\<close> and the structure line \<open>b a\<close>, the cursor is 2 after the first word and 1
  after the second.
\<close>

theorem cursor_moves_back:
  "parse_lrc_file python (Some [''[00:10.00]b a'']) = [(Num 10, ''b a'')]
   \<and> create_word_timing_map python (Some [''[00:01.00]a'', ''[00:02.00]b''])
       = [(Num 1, ''a'', ''a''), (Num 2, ''b'', ''b'')]
   \<and> run_prefix python [(Num 1, ''a'', ''a''), (Num 2, ''b'', ''b'')] [(Num 10, ''b a'')] 1
       = Inr (2, [(Num 2, ''b'', False)])
   \<and> run_prefix python [(Num 1, ''a'', ''a''), (Num 2, ''b'', ''b'')] [(Num 10, ''b a'')] 2
       = Inr (1, [(Num 2, ''b'', False), (Num 1, ''a'', True)])"
proof (intro conjI)
  show "parse_lrc_file python (Some [''[00:10.00]b a'']) = [(Num 10, ''b a'')]"
    by code_simp
  show "create_word_timing_map python (Some [''[00:01.00]a'', ''[00:02.00]b''])
       = [(Num 1, ''a'', ''a''), (Num 2, ''b'', ''b'')]"
    by code_simp
  show "run_prefix python [(Num 1, ''a'', ''a''), (Num 2, ''b'', ''b'')] [(Num 10, ''b a'')] 1
       = Inr (2, [(Num 2, ''b'', False)])"
    by code_simp
  show "run_prefix python [(Num 1, ''a'', ''a''), (Num 2, ''b'', ''b'')] [(Num 10, ''b a'')] 2
       = Inr (1, [(Num 2, ''b'', False), (Num 1, ''a'', True)])"
    by code_simp
qed

text \<open>
  Claim C2, amended. The cursor starts at 0. A word never lowers it, except when the
  accepted candidate is the one two positions before the cursor (the first index of the
  window): then the cursor goes down by exactly one.
\<close>

theorem cursor_lowered_only_by_backtrack:
  assumes "run_prefix L ts structure_lines k = Inr (timing_index, wll)"
    and "run_prefix L ts structure_lines (Suc k) = Inr (timing_index', wll')"
  shows "run_prefix L ts structure_lines 0 = Inr (0, [])
         \<and> (timing_index \<le> timing_index'
             \<or> (timing_index' = timing_index - 1 \<and> 2 \<le> timing_index
                 \<and> k < length (word_jobs structure_lines)
                 \<and> accepts L ts (snd (snd (snd (word_jobs structure_lines ! k))))
                      (timing_index - 2)))"
proof (cases "k < length (word_jobs structure_lines)")
  case False
  then show ?thesis
    using assms by (simp add: run_prefix_beyond run_prefix_0)
next
  case True
  obtain line_timestamp n word_index word
    where job: "word_jobs structure_lines ! k = (line_timestamp, n, word_index, word)"
    by (cases "word_jobs structure_lines ! k") auto
  show ?thesis
  proof (cases "find (accepts L ts word) (search_range timing_index (length ts))")
    case None
    with run_step [OF assms(1) True job] assms(2) show ?thesis
      by (simp add: run_prefix_0)
  next
    case (Some i)
    then have i: "max 0 (timing_index - 2) \<le> i" "accepts L ts word i"
      unfolding find_search_range_Some by simp_all
    have c': "timing_index' = i + 1"
      using run_step [OF assms(1) True job] assms(2) Some by simp
    show ?thesis
    proof (cases "timing_index \<le> timing_index'")
      case True
      then show ?thesis by (simp add: run_prefix_0)
    next
      case False
      with c' i(1) have "i = timing_index - 2" "2 \<le> timing_index" by auto
      with c' i(2) job \<open>k < length (word_jobs structure_lines)\<close> show ?thesis
        by (simp add: run_prefix_0)
    qed
  qed
qed

theorem cursor_lowered_only_by_backtrack_witness:
  "run_prefix python [(Num 1, ''a'', ''a''), (Num 2, ''b'', ''b'')] [(Num 10, ''b a'')] 1
       = Inr (2, [(Num 2, ''b'', False)])
   \<and> run_prefix python [(Num 1, ''a'', ''a''), (Num 2, ''b'', ''b'')] [(Num 10, ''b a'')] (Suc 1)
       = Inr (1, [(Num 2, ''b'', False), (Num 1, ''a'', True)])
   \<and> \<not> (2 :: int) \<le> 1
   \<and> accepts python [(Num 1, ''a'', ''a''), (Num 2, ''b'', ''b'')]
        (snd (snd (snd (word_jobs [(Num 10, ''b a'')] ! 1)))) (2 - 2)"
proof -
  let ?ts = "[(Num 1, ''a'', ''a''), (Num 2, ''b'', ''b'')]"
  let ?lines = "[(Num 10, ''b a'')]"
  have h1: "run_prefix python ?ts ?lines 1 = Inr (2, [(Num 2, ''b'', False)])" by code_simp
  have h2: "run_prefix python ?ts ?lines (Suc 1) = Inr (1, [(Num 2, ''b'', False), (Num 1, ''a'', True)])"
    by code_simp
  have "\<not> (2 :: int) \<le> 1" by simp
  with cursor_lowered_only_by_backtrack [OF h1 h2] h1 h2 show ?thesis by blast
qed

section \<open>The fallback timestamp\<close>

text \<open>
  Claim C3. When no index of the window passes the similarity test for the \<open>k\<close>-th
  word, the cursor is unchanged and the word gets: the line's own timestamp when it is
  word 0 of its line; otherwise the timestamp of the last entry of
  \<open>word_level_lyrics\<close> plus \<open>3 / 10\<close> (the float sum: exact on finite
  timestamps, and NaN or an infinity stays what it is). That last entry exists and belongs to the
  previous word of the same line (\<open>wll\<close> has one entry per word processed so far, and
  visit \<open>k - 1\<close> is word \<open>word_index - 1\<close> of the same line). Hence in a run of
  unmatched words within a line each timestamp is the one before it plus \<open>3 / 10\<close>.
\<close>

theorem fallback_timestamp:
  assumes "run_prefix L ts structure_lines k = Inr (timing_index, wll)"
    and "k < length (word_jobs structure_lines)"
    and "word_jobs structure_lines ! k = (line_timestamp, n, word_index, word)"
    and "\<forall>j. max 0 (timing_index - 2) \<le> j \<and> j < min (int (length ts)) (timing_index + 50)
             \<longrightarrow> \<not> accepts L ts word j"
  shows "run_prefix L ts structure_lines (Suc k) =
           Inr (timing_index,
                wll @ [(if word_index = 0 then line_timestamp
                         else float_add (fst (last wll)) (Num (3 / 10)),
                        word, int word_index = int n - 1)])
         \<and> length wll = k
         \<and> (word_index \<noteq> 0 \<longrightarrow>
              0 < k \<and> (\<exists>w'. word_jobs structure_lines ! (k - 1) =
                               (line_timestamp, n, word_index - 1, w')))"
proof -
  have none: "find (accepts L ts word) (search_range timing_index (length ts)) = None"
    unfolding find_search_range_None using assms(4) .
  have len: "length wll = k"
    using run_prefix_invariant [OF assms(1)] assms(2) by simp
  have prev: "0 < k \<and> (\<exists>w'. word_jobs structure_lines ! (k - 1) =
                               (line_timestamp, n, word_index - 1, w'))"
    if "word_index \<noteq> 0"
    using word_jobs_prev [OF assms(2) assms(3) that] .
  have "wll \<noteq> []" if "word_index \<noteq> 0"
    using prev [OF that] len by auto
  then have "run_prefix L ts structure_lines (Suc k) =
           Inr (timing_index,
                wll @ [(if word_index = 0 then line_timestamp
                         else float_add (fst (last wll)) (Num (3 / 10)),
                        word, int word_index = int n - 1)])"
    unfolding run_step [OF assms(1-3)] none by simp
  with len prev show ?thesis by blast
qed

theorem fallback_timestamp_witness:
  "run_prefix python [(Num 1, ''a'', ''a'')] [(Num 10, ''x y'')] 1 = Inr (0, [(Num 10, ''x'', False)])
   \<and> 1 < length (word_jobs [(Num 10, ''x y'')])
   \<and> word_jobs [(Num 10, ''x y'')] ! 1 = (Num 10, 2, 1, ''y'')
   \<and> \<not> accepts python [(Num 1, ''a'', ''a'')] ''y'' 0
   \<and> run_prefix python [(Num 1, ''a'', ''a'')] [(Num 10, ''x y'')] (Suc 1) =
       Inr (0, [(Num 10, ''x'', False)] @
               [(if (1 :: nat) = 0 then Num 10
                  else float_add (fst (last [(Num 10, ''x'', False)])) (Num (3 / 10)),
                 ''y'', int 1 = int 2 - 1)])"
proof -
  let ?ts = "[(Num 1, ''a'', ''a'')]"
  let ?lines = "[(Num 10, ''x y'')]"
  have h1: "run_prefix python ?ts ?lines 1 = Inr (0, [(Num 10, ''x'', False)])" by code_simp
  have h2: "1 < length (word_jobs ?lines)" by code_simp
  have h3: "word_jobs ?lines ! 1 = (Num 10, 2, 1, ''y'')" by code_simp
  have a0: "\<not> accepts python ?ts ''y'' 0" by code_simp
  have h4: "\<forall>j. max 0 (0 - 2) \<le> j \<and> j < min (int (length ?ts)) (0 + 50)
               \<longrightarrow> \<not> accepts python ?ts ''y'' j"
  proof (intro allI impI)
    fix j :: int
    assume "max 0 (0 - 2) \<le> j \<and> j < min (int (length ?ts)) (0 + 50)"
    then have "j = 0" by simp
    with a0 show "\<not> accepts python ?ts ''y'' j" by simp
  qed
  from fallback_timestamp [OF h1 h2 h3 h4] h1 h2 h3 a0 show ?thesis by blast
qed

section \<open>No exception, and the empty result\<close>

text \<open>
  Claim C9. \<open>create_word_level_lyrics\<close> always returns a list, never an exception
  (the only indexing that could raise stays inside the timing sequence), and it returns
  the empty list when the structure transcript parses to no line or the timing sequence
  is empty.
\<close>

theorem aligner_never_raises:
  "(\<exists>out. create_word_level_lyrics L structure_lrc timing_lrc = Inr out)
   \<and> (parse_lrc_file L structure_lrc = [] \<or> create_word_timing_map L timing_lrc = []
        \<longrightarrow> create_word_level_lyrics L structure_lrc timing_lrc = Inr [])"
proof -
  obtain timing_index wll
    where "for_each (process_line L (create_word_timing_map L timing_lrc))
             (parse_lrc_file L structure_lrc) (0, []) = Inr (timing_index, wll)"
    using run_prefix_total unfolding run_prefix_all [symmetric] by blast
  then show ?thesis
    by (simp add: create_word_level_lyrics_def Let_def)
qed

theorem aligner_never_raises_witness:
  "create_word_timing_map python (Some []) = []
   \<and> create_word_level_lyrics python (Some [''[00:10.00]hello'']) (Some []) = Inr []"
proof -
  have h: "create_word_timing_map python (Some []) = []"
    by (simp add: create_word_timing_map_def parse_lrc_file_def py_sorted_def)
  from aligner_never_raises [of python "Some [''[00:10.00]hello'']" "Some []"] h
  show ?thesis by blast
qed

section \<open>The parser's output\<close>




text \<open>
  Claim C6. The metadata test of \<open>parse_lrc_file\<close> looks for \<open>ar:\<close>, \<open>al:\<close>,
  \<open>ti:\<close>, \<open>length:\<close> and \<open>id:\<close> anywhere in the lowercased line, not in its
  bracketed tag. A timestamped lyric line whose words contain one of them is dropped:
  of the two lines below only the second is kept, the first being lost to the \<open>ar:\<close>
  of \<open>Star:\<close>.
\<close>

theorem lyric_line_with_tag_text_dropped:
  "parse_lrc_file python (Some [''[00:05.00]Star: light'', ''[00:07.00]Sun light''])
     = [(Num 7, ''Sun light'')]"
  by code_simp

section \<open>The normalizer on punctuation\<close>

text \<open>
  Claim C8. The class \<open>\w\<close> of the first substitution contains the underscore, so
  this punctuation character is not removed: the string \<open>_\<close> normalizes to itself, not
  to the empty string.
\<close>

theorem underscore_survives_normalize:
  "normalize_text ''_'' = ''_''"
  by code_simp

section \<open>The aligner's output\<close>




text \<open>
  Claim C5, as stated, fails when the timing sequence is empty: the function returns the
  empty list before it looks at a word, so a structure line with words has no entry at
  all, and none with \<open>is_line_end\<close>.
\<close>

theorem no_line_end_on_empty_timing:
  "parse_lrc_file python (Some [''[00:10.00]hello'']) = [(Num 10, ''hello'')]
   \<and> create_word_level_lyrics python (Some [''[00:10.00]hello'']) (Some []) = Inr []"
proof (intro conjI)
  show "parse_lrc_file python (Some [''[00:10.00]hello'']) = [(Num 10, ''hello'')]"
    by code_simp
  have "create_word_timing_map python (Some []) = []"
    by (simp add: create_word_timing_map_def parse_lrc_file_def py_sorted_def)
  then show "create_word_level_lyrics python (Some [''[00:10.00]hello'']) (Some []) = Inr []"
    unfolding create_word_level_lyrics_def Let_def by simp
qed

text \<open>
  Claim C5, amended. When the structure transcript parses to at least one line and the
  timing sequence is not empty, the output is a rearrangement (the sort) of a list
  \<open>wll\<close> that has, line after line, one entry for each word of the line, flagged
  \<open>is_line_end\<close> exactly when it is the last word of its line. So the number of
  flagged entries of the output is the number of structure lines that have a word.
\<close>

theorem line_end_flags:
  assumes "create_word_level_lyrics L structure_lrc timing_lrc = Inr out"
    and "parse_lrc_file L structure_lrc \<noteq> []"
    and "create_word_timing_map L timing_lrc \<noteq> []"
  shows "\<exists>wll. out = py_sorted fst wll
     \<and> map snd wll =
         concat (map (\<lambda>(line_timestamp, line_text).
                        map (\<lambda>(i, w). (w, Suc i = length (split_ws line_text)))
                          (enumerate 0 (split_ws line_text)))
                     (parse_lrc_file L structure_lrc))
     \<and> length (filter (\<lambda>e. snd (snd e)) out) =
         length (filter (\<lambda>(line_timestamp, line_text). split_ws line_text \<noteq> [])
                   (parse_lrc_file L structure_lrc))"
proof -
  from aligner_cases [OF assms(1)] assms(2,3) obtain timing_index wll
    where run: "run_prefix L (create_word_timing_map L timing_lrc) (parse_lrc_file L structure_lrc)
                   (length (word_jobs (parse_lrc_file L structure_lrc))) = Inr (timing_index, wll)"
      and out: "out = py_sorted fst wll"
    by blast
  from run have "map snd wll =
      map (\<lambda>(lt, n, i, w). (w, int i = int n - 1)) (word_jobs (parse_lrc_file L structure_lrc))"
    unfolding run_prefix_def using for_each_entries by fastforce
  then have entries: "map snd wll =
         concat (map (\<lambda>(line_timestamp, line_text).
                        map (\<lambda>(i, w). (w, Suc i = length (split_ws line_text)))
                          (enumerate 0 (split_ws line_text)))
                     (parse_lrc_file L structure_lrc))"
    unfolding word_jobs_entries .
  have "length (filter (\<lambda>e. snd (snd e)) out) = length (filter (\<lambda>e. snd (snd e)) wll)"
    unfolding out by (rule py_sorted_count)
  also have "\<dots> = length (filter snd (map snd wll))"
    by (simp add: filter_map comp_def)
  also have "\<dots> = length (filter (\<lambda>(line_timestamp, line_text). split_ws line_text \<noteq> [])
                   (parse_lrc_file L structure_lrc))"
    unfolding entries by (rule line_end_count)
  finally show ?thesis using out entries by blast
qed

theorem line_end_flags_witness:
  "create_word_level_lyrics python (Some [''[00:10.00]x y'', ''[00:20.00]z''])
       (Some [''[00:01.00]y''])
     = Inr [(Num 1, ''y'', True), (Num 10, ''x'', False), (Num 20, ''z'', True)]
   \<and> parse_lrc_file python (Some [''[00:10.00]x y'', ''[00:20.00]z'']) \<noteq> []
   \<and> create_word_timing_map python (Some [''[00:01.00]y'']) \<noteq> []
   \<and> length (filter (\<lambda>e. snd (snd e)) [(Num 1, ''y'', True), (Num 10, ''x'', False), (Num 20, ''z'', True)])
       = length (filter (\<lambda>(line_timestamp, line_text). split_ws line_text \<noteq> [])
                   (parse_lrc_file python (Some [''[00:10.00]x y'', ''[00:20.00]z''])))"
proof -
  have p: "parse_lrc_file python (Some [''[00:10.00]x y'', ''[00:20.00]z''])
      = [(Num 10, ''x y''), (Num 20, ''z'')]"
    by code_simp
  have m: "create_word_timing_map python (Some [''[00:01.00]y'']) = [(Num 1, ''y'', ''y'')]"
    by code_simp
  have r: "for_each (process_line python [(Num 1, ''y'', ''y'')])
             [(Num 10, ''x y''), (Num 20, ''z'')] (0, [])
      = Inr (1, [(Num 10, ''x'', False), (Num 1, ''y'', True), (Num 20, ''z'', True)])"
    by code_simp
  have s: "py_sorted fst [(Num 10, ''x'', False), (Num 1, ''y'', True), (Num 20, ''z'', True)]
      = [(Num 1, ''y'', True), (Num 10, ''x'', False), (Num 20, ''z'', True)]"
    by code_simp
  have h1: "create_word_level_lyrics python (Some [''[00:10.00]x y'', ''[00:20.00]z''])
       (Some [''[00:01.00]y''])
     = Inr [(Num 1, ''y'', True), (Num 10, ''x'', False), (Num 20, ''z'', True)]"
    unfolding create_word_level_lyrics_def Let_def p m r by (simp add: s)
  have h2: "parse_lrc_file python (Some [''[00:10.00]x y'', ''[00:20.00]z'']) \<noteq> []"
    unfolding p by simp
  have h3: "create_word_timing_map python (Some [''[00:01.00]y'']) \<noteq> []"
    unfolding m by simp
  from line_end_flags [OF h1 h2 h3]
  have "length (filter (\<lambda>e. snd (snd e)) [(Num 1, ''y'', True), (Num 10, ''x'', False), (Num 20, ''z'', True)])
       = length (filter (\<lambda>(line_timestamp, line_text). split_ws line_text \<noteq> [])
                   (parse_lrc_file python (Some [''[00:10.00]x y'', ''[00:20.00]z''])))"
    by (elim exE conjE)
  with h1 h2 h3 show ?thesis by (intro conjI)
qed

end
